theory Spec2Isabelle
  imports Main "HOL-Library.Word" "HOL-Library.Sublist"
begin

unbundle bit_operations_syntax

section \<open>Go library operations used by the resolver\<close>

subsection \<open>Package strings\<close>

text \<open>
  Go strings are byte sequences; \<^typ>\<open>string\<close> is a list of 8-bit characters.
  \<open>strings.HasPrefix(s, prefix)\<close>.
\<close>

definition HasPrefix :: "string \<Rightarrow> string \<Rightarrow> bool" where
  "HasPrefix s pre = prefix pre s"

text \<open>\<open>strings.TrimRight(s, "/")\<close>: every trailing slash is removed.\<close>

definition TrimRight_slash :: "string \<Rightarrow> string" where
  "TrimRight_slash s = rev (dropWhile (\<lambda>c. c = CHR ''/'') (rev s))"

text \<open>
  \<open>strings.SplitAfterN(s, "/", 2)\<close>: the text up to and including the first slash, then
  the unsplit remainder; a string without a slash is returned whole, as a single element.
\<close>

definition SplitAfterN_slash_2 :: "string \<Rightarrow> string list" where
  "SplitAfterN_slash_2 s =
     (if CHR ''/'' \<in> set s
      then [takeWhile (\<lambda>c. c \<noteq> CHR ''/'') s @ ''/'', tl (dropWhile (\<lambda>c. c \<noteq> CHR ''/'') s)]
      else [s])"

text \<open>\<open>strings.Split(s, "/")\<close>: the pieces between slashes, empty pieces included.\<close>

fun split_slash :: "string \<Rightarrow> string list" where
  "split_slash [] = [[]]"
| "split_slash (c # cs) =
     (if c = CHR ''/'' then [] # split_slash cs
      else (case split_slash cs of
              [] \<Rightarrow> [[c]]
            | x # xs \<Rightarrow> (c # x) # xs))"

text \<open>\<open>strings.Join(elems, "/")\<close>.\<close>

fun join_slash :: "string list \<Rightarrow> string" where
  "join_slash [] = []"
| "join_slash [c] = c"
| "join_slash (c # d # cs) = c @ CHR ''/'' # join_slash (d # cs)"

subsection \<open>Package path\<close>

text \<open>
  \<open>path.Clean\<close> works element by element: empty elements and \<open>.\<close> are dropped, \<open>..\<close>
  removes the element written before it (at the root it is dropped, in a relative path
  with nothing left to remove it is kept), everything else is written out. \<open>out\<close> holds
  the written elements, the last one first.
\<close>

definition clean_step :: "bool \<Rightarrow> string list \<Rightarrow> string \<Rightarrow> string list" where
  "clean_step rooted out c =
     (if c = [] \<or> c = ''.'' then out
      else if c = ''..'' then
        (case out of
           [] \<Rightarrow> if rooted then [] else [''..'']
         | d # ds \<Rightarrow> if d = ''..'' then ''..'' # out else ds)
      else c # out)"

definition path_Clean :: "string \<Rightarrow> string" where
  "path_Clean path =
     (if path = [] then ''.''
      else let rooted = (hd path = CHR ''/'');
               out = foldl (clean_step rooted) [] (split_slash path)
           in if rooted then CHR ''/'' # join_slash (rev out)
              else if out = [] then ''.'' else join_slash (rev out))"

text \<open>\<open>path.IsAbs\<close>.\<close>

definition path_IsAbs :: "string \<Rightarrow> bool" where
  "path_IsAbs path = (path \<noteq> [] \<and> hd path = CHR ''/'')"

text \<open>
  \<open>path.Dir\<close>: \<open>path.Split\<close> cuts after the last slash, and the directory part is cleaned.
\<close>

definition path_Dir :: "string \<Rightarrow> string" where
  "path_Dir path = path_Clean (rev (dropWhile (\<lambda>c. c \<noteq> CHR ''/'') (rev path)))"

text \<open>
  \<open>path.Base\<close>: trailing slashes are stripped, then the text after the last slash is
  taken; the empty path gives \<open>.\<close> and a path of slashes only gives \<open>/\<close>.
\<close>

definition path_Base :: "string \<Rightarrow> string" where
  "path_Base path =
     (if path = [] then ''.''
      else let b = rev (takeWhile (\<lambda>c. c \<noteq> CHR ''/'') (rev (TrimRight_slash path)))
           in if b = [] then ''/'' else b)"

text \<open>
  \<open>path.Join\<close> of two elements: leading empty elements are ignored, the rest is joined
  with slashes and cleaned; when every element is empty the result is empty.
\<close>

definition path_Join :: "string \<Rightarrow> string \<Rightarrow> string" where
  "path_Join a b =
     (if a \<noteq> [] then path_Clean (a @ CHR ''/'' # b)
      else if b \<noteq> [] then path_Clean b
      else [])"


subsection \<open>Package os\<close>

text \<open>
  What \<open>os.Stat\<close> reports about an entry: its base name and its mode word
  (\<open>os.FileMode\<close>, 32 bits; the low nine bits are the permissions, bit 31 marks a
  directory).
\<close>

record FileInfo =
  Name :: string
  Mode :: "32 word"

definition ModeDir :: "32 word" where
  "ModeDir = push_bit 31 1"

definition ModePerm :: "32 word" where
  "ModePerm = 511"

definition IsDir :: "FileInfo \<Rightarrow> bool" where
  "IsDir info = (Mode info AND ModeDir \<noteq> 0)"

definition Perm :: "32 word \<Rightarrow> 32 word" where
  "Perm m = m AND ModePerm"

text \<open>
  The filesystem as \<open>os.Stat\<close> sees it: \<open>None\<close> stands for a returned error. No
  consistency between the answers is assumed: a marker may be present under a directory
  whose own \<open>os.Stat\<close> fails.
\<close>

type_synonym filesystem = "string \<Rightarrow> FileInfo option"

section \<open>The permission gate (grove.go)\<close>

text \<open>
  \<open>CheckPermBits\<close>. \<open>Perms\<close> is the process-wide threshold (\<open>uint\<close>), \<open>permBits\<close>
  an \<open>int\<close>; both are 64 bits wide here. The shifted mask is converted to
  \<open>os.FileMode\<close>, which keeps its low 32 bits.
\<close>

definition CheckPermBits :: "64 word \<Rightarrow> FileInfo \<Rightarrow> bool" where
  "CheckPermBits Perms info =
     (let permBits = (if IsDir info then 5 else 4 :: 64 word)
      in Perm (Mode info) AND (ucast (push_bit (unat (Perms * 3)) permBits) :: 32 word) > 0)"

definition CheckPerms :: "64 word \<Rightarrow> FileInfo \<Rightarrow> bool" where
  "CheckPerms Perms info =
     (if HasPrefix (Name info) ''.'' then False else CheckPermBits Perms info)"

section \<open>The boundary resolver (grove.go)\<close>

definition StatusOK :: int where "StatusOK = 200"
definition StatusForbidden :: int where "StatusForbidden = 403"
definition StatusNotFound :: int where "StatusNotFound = 404"
definition StatusInternalServerError :: int where "StatusInternalServerError = 500"

text \<open>
  \<open>SplitRepository\<close> returns \<open>(repository, file, isFile, status)\<close>. Indexing a slice
  out of range panics; that is the only run-time error the function can raise.
\<close>

type_synonym result = "string \<times> string \<times> bool \<times> int"

datatype error = IndexOutOfRange

definition index :: "'a list \<Rightarrow> nat \<Rightarrow> error + 'a" where
  "index xs i = (if i < length xs then Inr (xs ! i) else Inl IndexOutOfRange)"

text \<open>Lines 243 to 264: the accumulated suffix picks the kind of view.\<close>

definition classify :: "string \<Rightarrow> string \<Rightarrow> error + result" where
  "classify repository file =
     (if length file \<noteq> 0 then
        (let file = file @ ''/'' in
         if HasPrefix file ''blob/'' then
           (case index (SplitAfterN_slash_2 file) 1 of
              Inl e \<Rightarrow> Inl e
            | Inr file \<Rightarrow> Inr (repository, TrimRight_slash file, True, StatusOK))
         else if HasPrefix file ''tree/'' then
           (case index (SplitAfterN_slash_2 file) 1 of
              Inl e \<Rightarrow> Inl e
            | Inr file \<Rightarrow>
                Inr (repository, if length file = 0 then ''./'' else file, False, StatusOK))
         else Inr (repository, file, False, StatusNotFound))
      else Inr (repository, file, False, StatusOK))"

text \<open>
  Lines 225 to 264: the marker has been seen under \<open>repository\<close>; the directory itself
  is looked up and passed through the gate before the suffix is classified.
\<close>

definition confirm :: "filesystem \<Rightarrow> 64 word \<Rightarrow> string \<Rightarrow> string \<Rightarrow> error + result" where
  "confirm stat Perms repository file =
     (case stat repository of
        None \<Rightarrow> Inr (repository, file, False, StatusInternalServerError)
      | Some fi \<Rightarrow>
          if \<not> CheckPerms Perms fi then Inr (repository, file, False, StatusForbidden)
          else classify repository file)"

text \<open>
  The loop of lines 198 to 265. The counter \<open>i\<close> (a Go \<open>int\<close>) is only ever
  compared with zero and is a natural number here: a run that returns increments it
  fewer times than the requested path has bytes. A run that does not return is the
  value \<open>None\<close>.
\<close>

partial_function (option) SplitRepository_loop ::
  "filesystem \<Rightarrow> 64 word \<Rightarrow> string \<Rightarrow> string \<Rightarrow> string \<Rightarrow> nat \<Rightarrow> (error + result) option"
where
  "SplitRepository_loop stat Perms toplevel repository file i =
     (let file = (if i \<noteq> 0 then path_Join (path_Base repository) file else file);
          repository = (if i \<noteq> 0 then path_Dir repository else repository)
      in if repository = toplevel
         then Some (Inr (path_Join repository file, [], False, StatusOK))
         else (case stat (repository @ ''/.git'') of
                 None \<Rightarrow> SplitRepository_loop stat Perms toplevel repository file (i + 1)
               | Some _ \<Rightarrow> Some (confirm stat Perms repository file)))"

declare SplitRepository_loop.simps [code]

text \<open>
  \<open>SplitRepository\<close>. Line 193 calls \<open>path.Clean(toplevel)\<close> and drops the result, so
  \<open>toplevel\<close> is compared as it was passed in.
\<close>

definition SplitRepository ::
  "filesystem \<Rightarrow> 64 word \<Rightarrow> string \<Rightarrow> string \<Rightarrow> (error + result) option" where
  "SplitRepository stat Perms toplevel p =
     (let _ = path_Clean toplevel
      in SplitRepository_loop stat Perms toplevel p [] 0)"

section \<open>The walk, step by step\<close>

text \<open>
  \<open>ascend k\<close> applies lines 203 and 204 \<open>k\<close> times: the cursor moves to its parent
  and the element it leaves is put in front of the accumulated suffix. \<open>cursor p k\<close>
  and \<open>inner p k\<close> are the directory and the suffix after \<open>k\<close> upward moves from the
  requested path \<open>p\<close>.
\<close>

fun ascend :: "nat \<Rightarrow> string \<Rightarrow> string \<Rightarrow> string \<times> string" where
  "ascend 0 repository file = (repository, file)"
| "ascend (Suc k) repository file =
     ascend k (path_Dir repository) (path_Join (path_Base repository) file)"

definition cursor :: "string \<Rightarrow> nat \<Rightarrow> string" where
  "cursor p k = fst (ascend k p [])"

definition inner :: "string \<Rightarrow> nat \<Rightarrow> string" where
  "inner p k = snd (ascend k p [])"

text \<open>
  The walk from \<open>p\<close> sees the marker after exactly \<open>k\<close> upward moves: the \<open>k\<close>
  directories before are neither \<open>toplevel\<close> nor marked, and the cursor then is not
  \<open>toplevel\<close> and has a \<open>.git\<close> entry.
\<close>

definition finds_marker :: "filesystem \<Rightarrow> string \<Rightarrow> string \<Rightarrow> nat \<Rightarrow> bool" where
  "finds_marker stat toplevel p k \<longleftrightarrow>
     list_all (\<lambda>j. cursor p j \<noteq> toplevel \<and> stat (cursor p j @ ''/.git'') = None) [0..<k]
     \<and> cursor p k \<noteq> toplevel \<and> stat (cursor p k @ ''/.git'') \<noteq> None"

text \<open>One pass of the loop from the comparison with \<open>toplevel\<close> (line 208) on.\<close>

definition from_check ::
  "filesystem \<Rightarrow> 64 word \<Rightarrow> string \<Rightarrow> string \<Rightarrow> string \<Rightarrow> nat \<Rightarrow> (error + result) option" where
  "from_check stat Perms toplevel repository file i =
     (if repository = toplevel
      then Some (Inr (path_Join repository file, [], False, StatusOK))
      else (case stat (repository @ ''/.git'') of
              None \<Rightarrow> SplitRepository_loop stat Perms toplevel repository file (i + 1)
            | Some _ \<Rightarrow> Some (confirm stat Perms repository file)))"

section \<open>Cleaned absolute paths\<close>

text \<open>The non-empty elements of a path, in order.\<close>

definition comps :: "string \<Rightarrow> string list" where
  "comps path = filter (\<lambda>c. c \<noteq> []) (split_slash path)"

text \<open>
  The serving root and the requested path are absolute and cleaned: \<open>path.Clean\<close>
  leaves them as they are.
\<close>

definition is_clean_abs :: "string \<Rightarrow> bool" where
  "is_clean_abs path \<longleftrightarrow> path_IsAbs path \<and> path_Clean path = path"

text \<open>
  \<open>path\<close> is \<open>toplevel\<close> itself or lies below it: element by element, \<open>toplevel\<close> is
  an initial part of \<open>path\<close>. \<open>depth\<close> counts the elements in between.
\<close>

definition descendant :: "string \<Rightarrow> string \<Rightarrow> bool" where
  "descendant toplevel path \<longleftrightarrow> prefix (comps toplevel) (comps path)"

definition depth :: "string \<Rightarrow> string \<Rightarrow> nat" where
  "depth toplevel path = length (comps path) - length (comps toplevel)"

text \<open>
  An element as it occurs in a cleaned path, and the absolute path written from a list
  of elements.
\<close>

definition element :: "string \<Rightarrow> bool" where
  "element c \<longleftrightarrow> c \<noteq> [] \<and> CHR ''/'' \<notin> set c \<and> c \<noteq> ''.'' \<and> c \<noteq> ''..''"

definition render :: "string list \<Rightarrow> string" where
  "render cs = CHR ''/'' # join_slash cs"

section \<open>Directory listings (webui.go)\<close>

text \<open>
  \<open>MakeDirPage\<close> fills \<open>pageinfo.List\<close> with \<open>dirList\<close> values. \<open>dirbuf\<close> is the loop
  of lines 256 to 266 over the names that \<open>Readdirnames\<close> returned: a name is listed
  when its \<open>os.Stat\<close> succeeds and \<open>CheckPerms\<close> accepts the result.
\<close>

record dirList =
  dirList_URL :: string
  dirList_Name :: string
  dirList_Link :: string
  dirList_Query :: string

fun dirbuf :: "filesystem \<Rightarrow> 64 word \<Rightarrow> string \<Rightarrow> string \<Rightarrow> string list \<Rightarrow> dirList list" where
  "dirbuf stat Perms url directory [] = []"
| "dirbuf stat Perms url directory (n # dirnames) =
     (case stat (directory @ ''/'' @ n) of
        None \<Rightarrow> dirbuf stat Perms url directory dirnames
      | Some info \<Rightarrow>
          if CheckPerms Perms info
          then \<lparr>dirList_URL = url @ Name info @ ''/'', dirList_Name = Name info,
                dirList_Link = [], dirList_Query = []\<rparr>
               # dirbuf stat Perms url directory dirnames
          else dirbuf stat Perms url directory dirnames)"

text \<open>
  The list that \<open>MakeDirPage\<close> hands to the template, or the status it gives up with:
  the directory itself is passed through the gate first, and below the top of the
  served tree two navigation links (\<open>/\<close> and \<open>..\<close>) come before the directory's
  entries. \<open>dirnames\<close> is what \<open>Readdirnames\<close> returned.
\<close>

definition MakeDirPage_List ::
  "filesystem \<Rightarrow> 64 word \<Rightarrow> string \<Rightarrow> string \<Rightarrow> string \<Rightarrow> string list \<Rightarrow> int + dirList list" where
  "MakeDirPage_List stat Perms url pagepath directory dirnames =
     (case stat directory of
        None \<Rightarrow> Inl StatusNotFound
      | Some fi \<Rightarrow>
          if \<not> CheckPerms Perms fi then Inl StatusForbidden
          else Inr ((if pagepath \<noteq> []
                     then [\<lparr>dirList_URL = ''/'', dirList_Name = ''/'',
                             dirList_Link = [], dirList_Query = []\<rparr>,
                           \<lparr>dirList_URL = url @ ''../'', dirList_Name = ''..'',
                             dirList_Link = [], dirList_Query = []\<rparr>]
                     else [])
                    @ dirbuf stat Perms url directory dirnames))"

section \<open>Example filesystems\<close>

text \<open>A directory entry with the given name and permission bits.\<close>

definition mkdir :: "string \<Rightarrow> 32 word \<Rightarrow> FileInfo" where
  "mkdir n perm = \<lparr>Name = n, Mode = ModeDir OR perm\<rparr>"

definition plain_tree :: filesystem where
  "plain_tree = map_of
     [(''/srv'', mkdir ''srv'' 493),
      (''/srv/a'', mkdir ''a'' 493),
      (''/srv/plain'', mkdir ''plain'' 493),
      (''/srv/plain/dir'', mkdir ''dir'' 493),
      (''/srv/plain/dir/file'', \<lparr>Name = ''file'', Mode = 420\<rparr>)]"

definition hidden_repo :: filesystem where
  "hidden_repo = map_of
     [(''/srv'', mkdir ''srv'' 493),
      (''/srv/.dot'', mkdir ''.dot'' 493),
      (''/srv/.dot/.git'', mkdir ''.git'' 493)]"

definition vanished_repo :: filesystem where
  "vanished_repo = map_of
     [(''/srv'', mkdir ''srv'' 493),
      (''/srv/a/.git'', mkdir ''.git'' 493)]"


definition one_repo :: filesystem where
  "one_repo = map_of
     [(''/srv'', mkdir ''srv'' 493),
      (''/srv/a'', mkdir ''a'' 493),
      (''/srv/a/.git'', mkdir ''.git'' 493)]"

definition listed_dir :: filesystem where
  "listed_dir = map_of
     [(''/srv/d'', mkdir ''d'' 493),
      (''/srv/d/.secret'', \<lparr>Name = ''.secret'', Mode = 420\<rparr>),
      (''/srv/d/pub'', mkdir ''pub'' 493)]"

text \<open>
  The states of the loop on \<open>plain_tree\<close> with the uncleaned top level \<open>/srv/\<close>, from
  the request for \<open>/srv/a\<close> on.
\<close>

definition stuck :: "filesystem \<Rightarrow> string \<Rightarrow> string \<Rightarrow> nat \<Rightarrow> bool" where
  "stuck stat toplevel repository i \<longleftrightarrow>
     stat = plain_tree \<and> toplevel = ''/srv/''
     \<and> (repository = ''/srv/a'' \<or> i \<noteq> 0 \<and> (repository = ''/srv'' \<or> repository = ''/''))"

section \<open>Properties of the loop\<close>

lemma loop_unfold:
  "SplitRepository_loop stat Perms toplevel repository file i =
     (if i \<noteq> 0
      then from_check stat Perms toplevel (path_Dir repository)
             (path_Join (path_Base repository) file) i
      else from_check stat Perms toplevel repository file i)"
  by (subst SplitRepository_loop.simps) (auto simp add: from_check_def Let_def)

lemma from_check_continue:
  assumes "repository \<noteq> toplevel" and "stat (repository @ ''/.git'') = None"
  shows "from_check stat Perms toplevel repository file i =
         from_check stat Perms toplevel (path_Dir repository)
           (path_Join (path_Base repository) file) (Suc i)"
proof -
  have "from_check stat Perms toplevel repository file i =
        SplitRepository_loop stat Perms toplevel repository file (Suc i)"
    using assms by (simp add: from_check_def)
  also have "\<dots> = from_check stat Perms toplevel (path_Dir repository)
           (path_Join (path_Base repository) file) (Suc i)"
    by (subst loop_unfold) simp
  finally show ?thesis .
qed

lemma from_check_ascend:
  assumes "\<forall>j<k. fst (ascend j repository file) \<noteq> toplevel
             \<and> stat (fst (ascend j repository file) @ ''/.git'') = None"
  shows "from_check stat Perms toplevel repository file i =
         from_check stat Perms toplevel (fst (ascend k repository file))
           (snd (ascend k repository file)) (i + k)"
  using assms
proof (induction k arbitrary: repository "file" i)
  case 0
  show ?case by simp
next
  case (Suc k)
  from Suc.prems have here: "repository \<noteq> toplevel" "stat (repository @ ''/.git'') = None"
    by force+
  have later: "\<forall>j<k. fst (ascend j (path_Dir repository) (path_Join (path_Base repository) file)) \<noteq> toplevel
      \<and> stat (fst (ascend j (path_Dir repository) (path_Join (path_Base repository) file)) @ ''/.git'') = None"
  proof (intro allI impI)
    fix j assume "j < k"
    then have "Suc j < Suc k" by simp
    with Suc.prems show "fst (ascend j (path_Dir repository) (path_Join (path_Base repository) file)) \<noteq> toplevel
      \<and> stat (fst (ascend j (path_Dir repository) (path_Join (path_Base repository) file)) @ ''/.git'') = None"
      by (metis ascend.simps(2))
  qed
  show ?case
    using Suc.IH [OF later, of "Suc i"] here
      from_check_continue [of repository toplevel stat Perms "file" i]
    by simp
qed

lemma SplitRepository_from_check:
  "SplitRepository stat Perms toplevel p = from_check stat Perms toplevel p [] 0"
  by (simp add: SplitRepository_def loop_unfold)

lemma SplitRepository_found:
  assumes "finds_marker stat toplevel p k"
  shows "SplitRepository stat Perms toplevel p
         = Some (confirm stat Perms (cursor p k) (inner p k))"
proof -
  from assms have skip: "\<forall>j<k. fst (ascend j p []) \<noteq> toplevel
             \<and> stat (fst (ascend j p []) @ ''/.git'') = None"
    and stop: "cursor p k \<noteq> toplevel" "stat (cursor p k @ ''/.git'') \<noteq> None"
    by (auto simp: finds_marker_def list_all_iff cursor_def)
  have "SplitRepository stat Perms toplevel p
        = from_check stat Perms toplevel (cursor p k) (inner p k) k"
    using from_check_ascend [OF skip, of Perms 0]
    by (simp add: SplitRepository_from_check cursor_def inner_def)
  also have "\<dots> = Some (confirm stat Perms (cursor p k) (inner p k))"
    using stop by (auto simp: from_check_def)
  finally show ?thesis .
qed

lemma SplitRepository_top:
  assumes "\<forall>j<k. cursor p j \<noteq> toplevel \<and> stat (cursor p j @ ''/.git'') = None"
    and "cursor p k = toplevel"
  shows "SplitRepository stat Perms toplevel p
         = Some (Inr (path_Join toplevel (inner p k), [], False, StatusOK))"
proof -
  from assms(1) have skip: "\<forall>j<k. fst (ascend j p []) \<noteq> toplevel
             \<and> stat (fst (ascend j p []) @ ''/.git'') = None"
    by (simp add: cursor_def)
  have "SplitRepository stat Perms toplevel p
        = from_check stat Perms toplevel (cursor p k) (inner p k) k"
    using from_check_ascend [OF skip, of Perms 0]
    by (simp add: SplitRepository_from_check cursor_def inner_def)
  also have "\<dots> = Some (Inr (path_Join toplevel (inner p k), [], False, StatusOK))"
    using assms(2) by (simp add: from_check_def)
  finally show ?thesis .
qed

lemma index_SplitAfterN:
  "index (SplitAfterN_slash_2 (file @ ''/'')) (Suc 0)
   = Inr (tl (dropWhile (\<lambda>c. c \<noteq> CHR ''/'') (file @ ''/'')))"
  by (simp add: index_def SplitAfterN_slash_2_def)

lemma classify_empty:
  "classify repository [] = Inr (repository, [], False, StatusOK)"
  by (simp add: classify_def)

lemma classify_blob:
  assumes "file \<noteq> []" and "HasPrefix (file @ ''/'') ''blob/''"
  shows "classify repository file
         = Inr (repository,
                TrimRight_slash (tl (dropWhile (\<lambda>c. c \<noteq> CHR ''/'') (file @ ''/''))),
                True, StatusOK)"
  using assms by (simp add: classify_def Let_def index_SplitAfterN)

lemma classify_tree:
  assumes "file \<noteq> []" and "\<not> HasPrefix (file @ ''/'') ''blob/''"
    and "HasPrefix (file @ ''/'') ''tree/''"
  shows "classify repository file
         = Inr (repository,
                (let rest = tl (dropWhile (\<lambda>c. c \<noteq> CHR ''/'') (file @ ''/''))
                 in if rest = [] then ''./'' else rest),
                False, StatusOK)"
  using assms by (simp add: classify_def Let_def index_SplitAfterN del: length_tl)

lemma classify_neither:
  assumes "file \<noteq> []" and "\<not> HasPrefix (file @ ''/'') ''blob/''"
    and "\<not> HasPrefix (file @ ''/'') ''tree/''"
  shows "classify repository file = Inr (repository, file @ ''/'', False, StatusNotFound)"
  using assms by (simp add: classify_def Let_def)

lemma classify_total:
  "\<exists>file' isFile status. classify repository file = Inr (repository, file', isFile, status)
     \<and> (status = StatusOK \<or> status = StatusNotFound)"
proof (cases "file = []")
  case True
  then show ?thesis by (auto simp: classify_empty)
next
  case False
  then show ?thesis
    using classify_blob [of "file" repository] classify_tree [of "file" repository]
      classify_neither [of "file" repository]
    by (cases "HasPrefix (file @ ''/'') ''blob/''"; cases "HasPrefix (file @ ''/'') ''tree/''")
       auto
qed

lemma confirm_total:
  "\<exists>file' isFile status. confirm stat Perms repository file
      = Inr (repository, file', isFile, status)"
  using classify_total [of repository "file"]
  by (cases "stat repository") (auto simp: confirm_def)

lemma CheckPerms_hidden: "HasPrefix (Name info) ''.'' \<Longrightarrow> \<not> CheckPerms Perms info"
  by (simp add: CheckPerms_def)

lemma dirbuf_names:
  "e \<in> set (dirbuf stat Perms url directory dirnames) \<Longrightarrow> \<not> HasPrefix (dirList_Name e) ''.''"
  by (induction dirnames) (auto simp: CheckPerms_def split: option.splits if_splits)

lemma MakeDirPage_List_hidden:
  assumes "MakeDirPage_List stat Perms url pagepath directory dirnames = Inr entries"
    and "e \<in> set entries" and "HasPrefix (dirList_Name e) ''.''"
  shows "pagepath \<noteq> [] \<and> dirList_Name e = ''..''"
  using assms dirbuf_names [of e stat Perms url directory dirnames]
  by (auto simp: MakeDirPage_List_def HasPrefix_def split: option.splits if_splits)

lemma loop_stuck:
  assumes "SplitRepository_loop stat Perms toplevel repository file i = Some y"
  shows "\<not> stuck stat toplevel repository i"
proof (rule SplitRepository_loop.raw_induct
    [where P = "\<lambda>stat Perms toplevel repository file i y. \<not> stuck stat toplevel repository i",
      OF _ assms])
  fix loop :: "filesystem \<Rightarrow> 64 word \<Rightarrow> string \<Rightarrow> string \<Rightarrow> string \<Rightarrow> nat \<Rightarrow> (error + result) option"
  fix st :: filesystem and pm :: "64 word" and t r f :: string and n :: nat
    and z :: "error + result"
  assume IH: "\<And>st pm t r f n z. loop st pm t r f n = Some z \<Longrightarrow> \<not> stuck st t r n"
  assume body: "(let file = (if n \<noteq> 0 then path_Join (path_Base r) f else f);
          repository = (if n \<noteq> 0 then path_Dir r else r)
      in if repository = t
         then Some (Inr (path_Join repository file, [], False, StatusOK))
         else (case st (repository @ ''/.git'') of
                 None \<Rightarrow> loop st pm t repository file (n + 1)
               | Some _ \<Rightarrow> Some (confirm st pm repository file))) = Some z"
  have d1: "path_Dir ''/srv/a'' = ''/srv''" by code_simp
  have d2: "path_Dir ''/srv'' = ''/''" by code_simp
  have d3: "path_Dir ''/'' = ''/''" by code_simp
  have s1: "plain_tree ''/srv/a/.git'' = None" by code_simp
  have s2: "plain_tree ''/srv/.git'' = None" by code_simp
  have s3: "plain_tree ''//.git'' = None" by code_simp
  show "\<not> stuck st t r n"
  proof
    assume a: "stuck st t r n"
    then consider (start) "n = 0" "r = ''/srv/a''" | (a) "n \<noteq> 0" "r = ''/srv/a''"
      | (srv) "n \<noteq> 0" "r = ''/srv''" | (root) "n \<noteq> 0" "r = ''/''"
      by (auto simp: stuck_def)
    then show False
    proof cases
      case start
      with a body s1 have "loop st pm t ''/srv/a'' f (Suc 0) = Some z"
        by (simp add: stuck_def Let_def)
      from IH [OF this] a show False by (simp add: stuck_def)
    next
      case a
      with \<open>stuck st t r n\<close> body s2 d1
      have "loop st pm t ''/srv'' (path_Join (path_Base r) f) (Suc n) = Some z"
        by (simp add: stuck_def Let_def)
      from IH [OF this] \<open>stuck st t r n\<close> show False by (simp add: stuck_def)
    next
      case srv
      with a body s3 d2
      have "loop st pm t ''/'' (path_Join (path_Base r) f) (Suc n) = Some z"
        by (simp add: stuck_def Let_def)
      from IH [OF this] a show False by (simp add: stuck_def)
    next
      case root
      with a body s3 d3
      have "loop st pm t ''/'' (path_Join (path_Base r) f) (Suc n) = Some z"
        by (simp add: stuck_def Let_def)
      from IH [OF this] a show False by (simp add: stuck_def)
    qed
  qed
qed

lemma TrimRight_slash_snoc: "TrimRight_slash (s @ ''/'') = TrimRight_slash s"
  by (simp add: TrimRight_slash_def)

section \<open>Properties of cleaned paths\<close>

lemma split_slash_not_Nil: "split_slash s \<noteq> []"
  by (induction s) (auto split: list.splits)

lemma split_slash_append:
  "split_slash (a @ CHR ''/'' # b) = split_slash a @ split_slash b"
proof (induction a)
  case Nil
  show ?case by simp
next
  case (Cons c a)
  then show ?case
    using split_slash_not_Nil [of a] by (cases "split_slash a") auto
qed

lemma split_slash_plain: "CHR ''/'' \<notin> set c \<Longrightarrow> split_slash c = [c]"
  by (induction c) auto

lemma split_slash_pieces: "c \<in> set (split_slash s) \<Longrightarrow> CHR ''/'' \<notin> set c"
proof (induction s arbitrary: c)
  case Nil
  then show ?case by simp
next
  case (Cons x s)
  then show ?case
    using split_slash_not_Nil [of s]
    by (cases "split_slash s") (auto split: if_splits)
qed

lemma split_slash_join:
  assumes "\<forall>c \<in> set cs. CHR ''/'' \<notin> set c"
  shows "split_slash (join_slash cs) = (if cs = [] then [[]] else cs)"
  using assms
proof (induction cs rule: join_slash.induct)
  case 1
  show ?case by simp
next
  case (2 c)
  then show ?case by (simp add: split_slash_plain)
next
  case (3 c d cs)
  then show ?case by (simp add: split_slash_append split_slash_plain)
qed

lemma comps_join:
  assumes "\<forall>c \<in> set cs. element c"
  shows "comps (join_slash cs) = cs"
proof -
  have "\<forall>c \<in> set cs. CHR ''/'' \<notin> set c" "\<forall>c \<in> set cs. c \<noteq> []"
    using assms by (auto simp: element_def)
  then show ?thesis
    by (simp add: comps_def split_slash_join filter_id_conv)
qed

lemma comps_slash: "comps (CHR ''/'' # s) = comps s"
  by (simp add: comps_def)

lemma comps_append: "comps (a @ CHR ''/'' # b) = comps a @ comps b"
  by (simp add: comps_def split_slash_append)

lemma comps_render:
  "\<forall>c \<in> set cs. element c \<Longrightarrow> comps (render cs) = cs"
  by (simp add: render_def comps_slash comps_join)

lemma render_inject:
  assumes "\<forall>c \<in> set cs. element c" and "\<forall>c \<in> set ds. element c" and "render cs = render ds"
  shows "cs = ds"
  using assms comps_render by metis

lemma clean_fold:
  assumes "\<forall>c \<in> set xs. c = [] \<or> element c"
  shows "foldl (clean_step r) out xs = rev (filter (\<lambda>c. c \<noteq> []) xs) @ out"
  using assms
  by (induction xs arbitrary: out) (auto simp: clean_step_def element_def)

lemma pieces_of_elements:
  assumes "\<forall>c \<in> set (comps s). element c"
  shows "\<forall>c \<in> set (split_slash s). c = [] \<or> element c"
  using assms by (auto simp: comps_def)

lemma Clean_rooted:
  assumes "\<forall>c \<in> set (comps s). element c"
  shows "path_Clean (CHR ''/'' # s) = render (comps s)"
  using clean_fold [OF pieces_of_elements [OF assms], of True "[]"]
  by (simp add: path_Clean_def render_def comps_def clean_step_def)

lemma Clean_relative:
  assumes "\<forall>c \<in> set (comps s). element c" and "s \<noteq> []" and "hd s \<noteq> CHR ''/''"
    and "comps s \<noteq> []"
  shows "path_Clean s = join_slash (comps s)"
  using clean_fold [OF pieces_of_elements [OF assms(1)], of False "[]"] assms(2-)
  by (simp add: path_Clean_def comps_def Let_def)

lemma clean_fold_elements:
  assumes "\<forall>c \<in> set xs. CHR ''/'' \<notin> set c" and "\<forall>c \<in> set out. element c"
  shows "\<forall>c \<in> set (foldl (clean_step True) out xs). element c"
  using assms
proof (induction xs arbitrary: out)
  case Nil
  then show ?case by simp
next
  case (Cons x xs)
  have "\<forall>c \<in> set (clean_step True out x). element c"
    using Cons.prems by (cases out) (auto simp: clean_step_def element_def)
  with Cons show ?case by simp
qed

lemma clean_abs_render:
  assumes "is_clean_abs p"
  shows "\<exists>cs. (\<forall>c \<in> set cs. element c) \<and> p = render cs"
proof -
  define out where "out = foldl (clean_step True) [] (split_slash p)"
  have "\<forall>c \<in> set out. element c"
    unfolding out_def by (rule clean_fold_elements) (auto dest: split_slash_pieces)
  moreover have "p = render (rev out)"
    using assms by (auto simp: is_clean_abs_def path_IsAbs_def path_Clean_def render_def out_def Let_def)
  ultimately show ?thesis by (intro exI [of _ "rev out"]) simp
qed

lemma render_clean_abs:
  assumes "\<forall>c \<in> set cs. element c"
  shows "is_clean_abs (render cs)"
proof -
  have "path_Clean (CHR ''/'' # join_slash cs) = render (comps (join_slash cs))"
    by (rule Clean_rooted) (simp add: comps_join assms)
  then show ?thesis
    by (simp add: is_clean_abs_def path_IsAbs_def render_def comps_join assms)
qed


lemma element_no_slash: "element c \<Longrightarrow> CHR ''/'' \<notin> set c"
  by (simp add: element_def)

lemma join_slash_snoc:
  "join_slash (cs @ [c]) = (if cs = [] then c else join_slash cs @ CHR ''/'' # c)"
  by (induction cs rule: join_slash.induct) auto

lemma render_snoc:
  "render (cs @ [c]) = (if cs = [] then [] else render cs) @ CHR ''/'' # c"
  by (simp add: render_def join_slash_snoc)

lemma Dir_render:
  assumes "\<forall>x \<in> set cs. element x" and "element c"
  shows "path_Dir (render (cs @ [c])) = render cs"
proof -
  define body where "body = (if cs = [] then [] else render cs)"
  have cut: "rev (dropWhile (\<lambda>x. x \<noteq> CHR ''/'') (rev (body @ CHR ''/'' # c))) = body @ ''/''"
  proof -
    have "dropWhile (\<lambda>x. x \<noteq> CHR ''/'') (rev c @ CHR ''/'' # rev body) = CHR ''/'' # rev body"
      using element_no_slash [OF assms(2)] by (subst dropWhile_append2) auto
    then show ?thesis by simp
  qed
  have "path_Clean (body @ ''/'') = render cs"
  proof (cases "cs = []")
    case True
    then show ?thesis by (simp add: body_def path_Clean_def render_def clean_step_def)
  next
    case False
    have "comps (join_slash cs @ ''/'') = cs"
      using assms(1) by (simp add: comps_append comps_join) (simp add: comps_def)
    moreover have "path_Clean (CHR ''/'' # (join_slash cs @ ''/''))
        = render (comps (join_slash cs @ ''/''))"
      by (rule Clean_rooted) (simp add: \<open>comps (join_slash cs @ ''/'') = cs\<close> assms(1))
    ultimately show ?thesis using False by (simp add: body_def render_def)
  qed
  then show ?thesis
    unfolding path_Dir_def render_snoc body_def [symmetric] cut .
qed

lemma Base_render:
  assumes "element c"
  shows "path_Base (render (cs @ [c])) = c"
proof -
  define body where "body = (if cs = [] then [] else render cs)"
  from assms obtain x xs where rc: "rev c = x # xs" and "x \<noteq> CHR ''/''"
    by (cases "rev c") (auto simp: element_def)
  then have trim: "TrimRight_slash (body @ CHR ''/'' # c) = body @ CHR ''/'' # c"
    by (simp add: TrimRight_slash_def)
  have "takeWhile (\<lambda>x. x \<noteq> CHR ''/'') (rev c @ CHR ''/'' # rev body) = rev c"
    using element_no_slash [OF assms] by (subst takeWhile_append2) auto
  then have "takeWhile (\<lambda>x. x \<noteq> CHR ''/'') (rev (body @ CHR ''/'' # c)) = rev c"
    by simp
  then have "path_Base (body @ CHR ''/'' # c) = c"
    using assms by (simp add: path_Base_def trim Let_def element_def)
  then show ?thesis
    unfolding render_snoc body_def [symmetric] .
qed

lemma Join_element:
  assumes "element c" and "\<forall>x \<in> set ds. element x"
  shows "path_Join c (join_slash ds) = join_slash (c # ds)"
proof -
  have c: "c \<noteq> []" "hd c \<noteq> CHR ''/''" "comps c = [c]"
    using assms(1) by (cases c; auto simp: element_def comps_def split_slash_plain)+
  have "comps (c @ CHR ''/'' # join_slash ds) = c # ds"
    using assms(2) c by (simp add: comps_append comps_join)
  moreover have "path_Clean (c @ CHR ''/'' # join_slash ds)
      = join_slash (comps (c @ CHR ''/'' # join_slash ds))"
    by (rule Clean_relative) (use assms c calculation in auto)
  ultimately show ?thesis using c by (simp add: path_Join_def)
qed

lemma Join_render:
  assumes "\<forall>x \<in> set ts. element x" and "\<forall>x \<in> set ds. element x"
  shows "path_Join (render ts) (join_slash ds) = render (ts @ ds)"
proof -
  have "comps (join_slash ts @ CHR ''/'' # join_slash ds) = ts @ ds"
    using assms by (simp add: comps_append comps_join)
  moreover have "path_Clean (CHR ''/'' # (join_slash ts @ CHR ''/'' # join_slash ds))
      = render (comps (join_slash ts @ CHR ''/'' # join_slash ds))"
    by (rule Clean_rooted) (use assms calculation in auto)
  ultimately show ?thesis by (simp add: path_Join_def render_def)
qed

lemma ascend_render:
  assumes "\<forall>x \<in> set cs. element x" and "\<forall>x \<in> set es. element x" and "\<forall>x \<in> set ds. element x"
  shows "ascend (length es) (render (cs @ es)) (join_slash ds) = (render cs, join_slash (es @ ds))"
  using assms
proof (induction es arbitrary: ds rule: rev_induct)
  case Nil
  show ?case by simp
next
  case (snoc e es)
  have e: "element e" and es: "\<forall>x \<in> set es. element x" and all: "\<forall>x \<in> set (cs @ es). element x"
    using snoc.prems by auto
  have "ascend (length (es @ [e])) (render (cs @ es @ [e])) (join_slash ds)
      = ascend (length es) (path_Dir (render ((cs @ es) @ [e])))
          (path_Join (path_Base (render ((cs @ es) @ [e]))) (join_slash ds))"
    by simp
  also have "\<dots> = ascend (length es) (render (cs @ es)) (join_slash (e # ds))"
    using Dir_render [OF all e] Base_render [OF e, of "cs @ es"]
      Join_element [OF e snoc.prems(3)] by simp
  also have "\<dots> = (render cs, join_slash (es @ e # ds))"
    using snoc.IH [of "e # ds"] snoc.prems e by simp
  finally show ?case by simp
qed

lemma cursor_render:
  assumes "\<forall>x \<in> set cs. element x" and "\<forall>x \<in> set es. element x"
  shows "cursor (render (cs @ es)) (length es) = render cs"
    and "inner (render (cs @ es)) (length es) = join_slash es"
  using ascend_render [OF assms, of "[]"] by (simp_all add: cursor_def inner_def)


lemma cursor_between:
  assumes ts: "\<forall>x \<in> set ts. element x" and ds: "\<forall>x \<in> set ds. element x"
    and j: "j \<le> length ds"
  shows "cursor (render (ts @ ds)) j = render (ts @ take (length ds - j) ds)"
    and "inner (render (ts @ ds)) j = join_slash (drop (length ds - j) ds)"
proof -
  let ?m = "length ds - j"
  have a: "\<forall>x \<in> set (ts @ take ?m ds). element x"
    using ts ds by (auto dest: in_set_takeD)
  have b: "\<forall>x \<in> set (drop ?m ds). element x"
    using ds by (auto dest: in_set_dropD)
  have len: "length (drop ?m ds) = j" using j by simp
  have whole: "(ts @ take ?m ds) @ drop ?m ds = ts @ ds" by simp
  show "cursor (render (ts @ ds)) j = render (ts @ take (length ds - j) ds)"
    using cursor_render(1) [OF a b] unfolding len whole .
  show "inner (render (ts @ ds)) j = join_slash (drop (length ds - j) ds)"
    using cursor_render(2) [OF a b] unfolding len whole .
qed

lemma descendant_render:
  assumes "\<forall>x \<in> set as. element x" and "\<forall>x \<in> set bs. element x"
  shows "descendant (render as) (render bs) \<longleftrightarrow> prefix as bs"
  using assms by (simp add: descendant_def comps_render)

lemma clean_descendant_render:
  assumes "is_clean_abs a" and "is_clean_abs b" and "descendant a b"
  obtains as ds where "\<forall>x \<in> set as. element x" and "\<forall>x \<in> set ds. element x"
    and "a = render as" and "b = render (as @ ds)"
proof -
  from clean_abs_render [OF assms(1)] obtain as where as: "\<forall>x \<in> set as. element x" "a = render as"
    by blast
  from clean_abs_render [OF assms(2)] obtain bs where bs: "\<forall>x \<in> set bs. element x" "b = render bs"
    by blast
  from assms(3) as bs have "prefix as bs" by (simp add: descendant_render)
  then obtain ds where "bs = as @ ds" by (auto simp: prefix_def)
  with as bs that [of as ds] show thesis by auto
qed

lemma walk_cursors:
  assumes ts: "\<forall>x \<in> set ts. element x" and ds: "\<forall>x \<in> set ds. element x"
    and j: "j < length ds"
  shows "is_clean_abs (cursor (render (ts @ ds)) j)"
    and "descendant (render ts) (cursor (render (ts @ ds)) j)"
    and "cursor (render (ts @ ds)) j \<noteq> render ts"
    and "descendant (cursor (render (ts @ ds)) j) (render (ts @ ds))"
proof -
  let ?m = "length ds - j"
  have c: "cursor (render (ts @ ds)) j = render (ts @ take ?m ds)"
    using cursor_between(1) [OF ts ds, of j] j by simp
  have a: "\<forall>x \<in> set (ts @ take ?m ds). element x"
    using ts ds by (auto dest: in_set_takeD)
  have all: "\<forall>x \<in> set (ts @ ds). element x" using ts ds by auto
  have ne: "take ?m ds \<noteq> []" using j by auto
  show "is_clean_abs (cursor (render (ts @ ds)) j)"
    unfolding c by (rule render_clean_abs [OF a])
  show "descendant (render ts) (cursor (render (ts @ ds)) j)"
    unfolding c using descendant_render [OF ts a] by simp
  show "cursor (render (ts @ ds)) j \<noteq> render ts"
    unfolding c using render_inject [OF a ts] ne by auto
  show "descendant (cursor (render (ts @ ds)) j) (render (ts @ ds))"
    unfolding c using descendant_render [OF a all] by (simp add: take_is_prefix)
qed

lemma SplitRepository_no_marker:
  assumes ts: "\<forall>x \<in> set ts. element x" and ds: "\<forall>x \<in> set ds. element x"
    and none: "\<forall>j < length ds. stat (cursor (render (ts @ ds)) j @ ''/.git'') = None"
  shows "SplitRepository stat Perms (render ts) (render (ts @ ds))
         = Some (Inr (render (ts @ ds), [], False, 200))"
proof -
  let ?p = "render (ts @ ds)"
  have skip: "\<forall>j < length ds. cursor ?p j \<noteq> render ts \<and> stat (cursor ?p j @ ''/.git'') = None"
    using none walk_cursors(3) [OF ts ds] by simp
  have top: "cursor ?p (length ds) = render ts"
    using cursor_between(1) [OF ts ds, of "length ds"] by simp
  have suffix: "inner ?p (length ds) = join_slash ds"
    using cursor_between(2) [OF ts ds, of "length ds"] by simp
  show ?thesis
    using SplitRepository_top [OF skip top, of Perms] Join_render [OF ts ds]
    by (simp add: suffix StatusOK_def)
qed

lemma join_slash_append:
  "as \<noteq> [] \<Longrightarrow> ds \<noteq> [] \<Longrightarrow> join_slash (as @ ds) = join_slash as @ CHR ''/'' # join_slash ds"
  by (induction as rule: join_slash.induct) (auto simp: neq_Nil_conv)

lemma descendant_iff:
  assumes "is_clean_abs a" and "is_clean_abs b"
  shows "descendant a b \<longleftrightarrow> a = b \<or> a = ''/'' \<or> prefix (a @ ''/'') b"
proof
  assume "descendant a b"
  with assms obtain as ds where as: "\<forall>x \<in> set as. element x" and ds: "\<forall>x \<in> set ds. element x"
    and a: "a = render as" and b: "b = render (as @ ds)"
    by (rule clean_descendant_render)
  show "a = b \<or> a = ''/'' \<or> prefix (a @ ''/'') b"
  proof (cases "as = [] \<or> ds = []")
    case True
    then show ?thesis by (auto simp: a b render_def)
  next
    case False
    then have "b = a @ CHR ''/'' # join_slash ds"
      by (simp add: a b render_def join_slash_append)
    then show ?thesis by simp
  qed
next
  assume r: "a = b \<or> a = ''/'' \<or> prefix (a @ ''/'') b"
  then consider "a = b" | "a = ''/''" | "prefix (a @ ''/'') b" by blast
  then show "descendant a b"
  proof cases
    case 1
    then show ?thesis by (simp add: descendant_def)
  next
    case 2
    then show ?thesis by (simp add: descendant_def comps_def)
  next
    case 3
    then obtain r where "b = a @ CHR ''/'' # r" by (auto simp: prefix_def)
    then show ?thesis by (simp add: descendant_def comps_append)
  qed
qed

lemma walk_bound:
  assumes "is_clean_abs toplevel" and "is_clean_abs p" and "descendant toplevel p"
  shows "\<exists>k \<le> depth toplevel p.
           SplitRepository stat Perms toplevel p
           = Some (if cursor p k = toplevel then Inr (p, [], False, 200)
                   else confirm stat Perms (cursor p k) (inner p k))"
proof -
  from assms obtain ts ds where ts: "\<forall>x \<in> set ts. element x"
    and ds: "\<forall>x \<in> set ds. element x" and t: "toplevel = render ts" and p: "p = render (ts @ ds)"
    by (rule clean_descendant_render)
  have all: "\<forall>x \<in> set (ts @ ds). element x" using ts ds by auto
  have d: "depth toplevel p = length ds"
    unfolding depth_def t p comps_render [OF ts] comps_render [OF all] by simp
  let ?marked = "\<lambda>j. j < length ds \<and> stat (cursor p j @ ''/.git'') \<noteq> None"
  show ?thesis
  proof (cases "\<exists>j. ?marked j")
    case True
    then obtain k where k: "?marked k" and least: "\<forall>j<k. \<not> ?marked j"
      using exists_least_iff [of ?marked] by blast
    have "finds_marker stat toplevel p k"
      using k least walk_cursors(3) [OF ts ds] unfolding t p
      by (auto simp: finds_marker_def list_all_iff)
    moreover have "cursor p k \<noteq> toplevel"
      using walk_cursors(3) [OF ts ds, of k] k unfolding t p by simp
    ultimately show ?thesis
      using SplitRepository_found [of stat toplevel p k Perms] k d
      by (intro exI [of _ k]) simp
  next
    case False
    then have "\<forall>j < length ds. stat (cursor (render (ts @ ds)) j @ ''/.git'') = None"
      unfolding p by auto
    from SplitRepository_no_marker [OF ts ds this, of Perms]
    have "SplitRepository stat Perms toplevel p = Some (Inr (p, [], False, 200))"
      unfolding t p .
    moreover have "cursor p (length ds) = toplevel"
      unfolding t p using cursor_between(1) [OF ts ds, of "length ds"] by simp
    ultimately show ?thesis using d by (intro exI [of _ "length ds"]) simp
  qed
qed

section \<open>Properties of the permission gate\<close>

lemma and_single_bit:
  fixes m :: "32 word"
  shows "m AND push_bit n 1 \<noteq> 0 \<longleftrightarrow> bit m n"
  by (simp add: bit_iff_and_push_bit_not_eq_0)

lemma perm_bit:
  assumes "k < 9"
  shows "Perm m AND push_bit k 1 \<noteq> 0 \<longleftrightarrow> bit m k"
proof -
  have "(511 :: 32 word) = mask 9" by (simp add: mask_eq_exp_minus_1)
  then have "bit (511 :: 32 word) k"
    using assms by (simp only: bit_mask_iff) simp
  then have "bit (Perm m) k \<longleftrightarrow> bit m k"
    by (simp add: Perm_def ModePerm_def bit_and_iff)
  then show ?thesis using and_single_bit [of "Perm m" k] by simp
qed

lemma file_mask: "push_bit n (4 :: 32 word) = push_bit (n + 2) 1"
  by (simp add: push_bit_eq_mult power_add)

lemma dir_mask: "push_bit n (5 :: 32 word) = push_bit (n + 2) 1 OR push_bit n 1"
proof -
  have "(5 :: 32 word) = 4 OR 1" by simp
  then have "push_bit n (5 :: 32 word) = push_bit n 4 OR push_bit n 1"
    by (simp only: push_bit_or)
  then show ?thesis by (simp only: file_mask)
qed

lemma threshold_mask:
  assumes "t = 0 \<or> t = 1 \<or> t = 2"
  shows "(ucast (push_bit (unat (t * 3 :: 64 word)) (if d then 5 else 4 :: 64 word)) :: 32 word)
         = push_bit (3 * unat t) (if d then 5 else 4)"
  using assms by (elim disjE) simp_all


lemma CheckPermBits_bits:
  assumes "t = 0 \<or> t = 1 \<or> t = 2"
  shows "CheckPermBits t info \<longleftrightarrow>
     (if IsDir info
      then bit (Mode info) (3 * unat t + 2) \<or> bit (Mode info) (3 * unat t)
      else bit (Mode info) (3 * unat t + 2))"
proof -
  let ?n = "3 * unat t"
  have n: "?n + 2 < 9" "?n < 9" using assms by auto
  have gate: "CheckPermBits t info
      \<longleftrightarrow> Perm (Mode info) AND push_bit ?n (if IsDir info then 5 else 4) \<noteq> 0"
    unfolding CheckPermBits_def Let_def threshold_mask [OF assms]
    by (auto simp only: word_gt_0)
  show ?thesis
  proof (cases "IsDir info")
    case True
    have "Perm (Mode info) AND push_bit ?n 5
        = (Perm (Mode info) AND push_bit (?n + 2) 1) OR (Perm (Mode info) AND push_bit ?n 1)"
      unfolding dir_mask by (rule bit.conj_disj_distrib)
    then have "Perm (Mode info) AND push_bit ?n 5 \<noteq> 0
        \<longleftrightarrow> bit (Mode info) (?n + 2) \<or> bit (Mode info) ?n"
      using perm_bit [OF n(1), of "Mode info"] perm_bit [OF n(2), of "Mode info"]
      by (metis or_eq_0_iff)
    with True gate show ?thesis by (simp only: if_True)
  next
    case False
    have "Perm (Mode info) AND push_bit ?n 4 \<noteq> 0 \<longleftrightarrow> bit (Mode info) (?n + 2)"
      unfolding file_mask by (rule perm_bit [OF n(1)])
    with False gate show ?thesis by (simp only: if_False)
  qed
qed

section \<open>Properties of the example filesystems\<close>



section \<open>The claims\<close>

text \<open>
  C1: for a cleaned absolute serving root and a cleaned absolute requested path that
  is the root or lies below it, \<open>SplitRepository\<close> returns, and the repository it
  returns is a cleaned absolute path that is the serving root or lies below it (and is
  the requested path or lies above it), whatever the status.
\<close>

theorem containment:
  assumes "is_clean_abs toplevel" and "is_clean_abs p" and "descendant toplevel p"
  shows "\<exists>repository file isFile status.
           SplitRepository stat Perms toplevel p = Some (Inr (repository, file, isFile, status))
           \<and> is_clean_abs repository \<and> descendant toplevel repository
           \<and> descendant repository p"
proof -
  from assms obtain ts ds where ts: "\<forall>x \<in> set ts. element x"
    and ds: "\<forall>x \<in> set ds. element x" and t: "toplevel = render ts" and p: "p = render (ts @ ds)"
    by (rule clean_descendant_render)
  let ?marked = "\<lambda>j. j < length ds \<and> stat (cursor p j @ ''/.git'') \<noteq> None"
  show ?thesis
  proof (cases "\<exists>j. ?marked j")
    case True
    then obtain k where k: "?marked k" and least: "\<forall>j<k. \<not> ?marked j"
      using exists_least_iff [of ?marked] by blast
    have "finds_marker stat toplevel p k"
      using k least walk_cursors(3) [OF ts ds] unfolding t p
      by (auto simp: finds_marker_def list_all_iff)
    from SplitRepository_found [OF this, of Perms]
      confirm_total [of stat Perms "cursor p k" "inner p k"]
    obtain f b s where "SplitRepository stat Perms toplevel p = Some (Inr (cursor p k, f, b, s))"
      by auto
    moreover have "is_clean_abs (cursor p k)" "descendant toplevel (cursor p k)"
      "descendant (cursor p k) p"
      using walk_cursors [OF ts ds, of k] k unfolding t p by auto
    ultimately show ?thesis by blast
  next
    case False
    then have "\<forall>j < length ds. stat (cursor (render (ts @ ds)) j @ ''/.git'') = None"
      unfolding p by auto
    from SplitRepository_no_marker [OF ts ds this, of Perms]
    have "SplitRepository stat Perms toplevel p = Some (Inr (p, [], False, 200))"
      unfolding t p .
    moreover have "descendant p p" by (simp add: descendant_def)
    ultimately show ?thesis using assms by blast
  qed
qed

theorem containment_witness:
  "is_clean_abs ''/srv'' \<and> is_clean_abs ''/srv/a/blob/x'' \<and> descendant ''/srv'' ''/srv/a/blob/x''
   \<and> SplitRepository one_repo 0 ''/srv'' ''/srv/a/blob/x'' = Some (Inr (''/srv/a'', ''x'', True, 200))
   \<and> is_clean_abs ''/srv/a'' \<and> descendant ''/srv'' ''/srv/a''
   \<and> descendant ''/srv/a'' ''/srv/a/blob/x''"
proof -
  have h1: "is_clean_abs ''/srv''" by code_simp
  have h2: "is_clean_abs ''/srv/a/blob/x''" by code_simp
  have h3: "descendant ''/srv'' ''/srv/a/blob/x''" by code_simp
  have run: "SplitRepository one_repo 0 ''/srv'' ''/srv/a/blob/x''
      = Some (Inr (''/srv/a'', ''x'', True, 200))" by code_simp
  show ?thesis
    using h1 h2 h3 containment [OF h1 h2 h3, of one_repo 0] unfolding run by simp
qed








text \<open>
  C4 (as stated): once the marker is seen and the directory's \<open>os.Stat\<close> succeeds, the
  answer is Forbidden exactly when the bits-only check rejects the directory; a name
  starting with a dot is no ground for Forbidden. This fails: \<open>/srv/.dot\<close> is a
  directory with mode 0755 holding a \<open>.git\<close>; \<open>CheckPermBits\<close> accepts it and the
  resolver still answers 403.
\<close>

theorem gate_at_marker_counterexample:
  "finds_marker hidden_repo ''/srv'' ''/srv/.dot'' 0
   \<and> hidden_repo (cursor ''/srv/.dot'' 0) = Some (mkdir ''.dot'' 493)
   \<and> CheckPermBits 0 (mkdir ''.dot'' 493)
   \<and> SplitRepository hidden_repo 0 ''/srv'' ''/srv/.dot''
       = Some (Inr (''/srv/.dot'', [], False, 403))"
  by code_simp

text \<open>
  C4 (amended): once the marker is seen after \<open>k\<close> upward moves and the directory's
  \<open>os.Stat\<close> gives \<open>fi\<close>, the resolver returns, and its status is Forbidden exactly
  when \<open>CheckPerms\<close> (the full gate) rejects \<open>fi\<close>, that is when the name starts with a
  dot or the bits-only check fails.
\<close>

theorem gate_at_marker:
  assumes "finds_marker stat toplevel p k" and "stat (cursor p k) = Some fi"
  shows "\<exists>file isFile status.
           SplitRepository stat Perms toplevel p = Some (Inr (cursor p k, file, isFile, status))
           \<and> (status = 403 \<longleftrightarrow> \<not> CheckPerms Perms fi)
           \<and> (CheckPerms Perms fi \<longleftrightarrow> \<not> HasPrefix (Name fi) ''.'' \<and> CheckPermBits Perms fi)"
proof (cases "CheckPerms Perms fi")
  case True
  obtain f b s where "classify (cursor p k) (inner p k) = Inr (cursor p k, f, b, s)"
      and "s = StatusOK \<or> s = StatusNotFound"
    using classify_total [of "cursor p k" "inner p k"] by blast
  with True assms show ?thesis
    using SplitRepository_found [of stat toplevel p k Perms]
    by (auto simp: confirm_def CheckPerms_def StatusOK_def StatusNotFound_def)
next
  case False
  with assms show ?thesis
    using SplitRepository_found [of stat toplevel p k Perms]
    by (auto simp: confirm_def CheckPerms_def StatusForbidden_def)
qed

theorem gate_at_marker_witness:
  "finds_marker hidden_repo ''/srv'' ''/srv/.dot/tree'' 1
   \<and> hidden_repo (cursor ''/srv/.dot/tree'' 1) = Some (mkdir ''.dot'' 493)
   \<and> HasPrefix (Name (mkdir ''.dot'' 493)) ''.''
   \<and> (\<exists>file isFile. SplitRepository hidden_repo 0 ''/srv'' ''/srv/.dot/tree''
          = Some (Inr (''/srv/.dot'', file, isFile, 403)))"
proof -
  have h1: "finds_marker hidden_repo ''/srv'' ''/srv/.dot/tree'' 1" by code_simp
  have h2: "hidden_repo (cursor ''/srv/.dot/tree'' 1) = Some (mkdir ''.dot'' 493)" by code_simp
  have h3: "HasPrefix (Name (mkdir ''.dot'' 493)) ''.''" by code_simp
  have c: "cursor ''/srv/.dot/tree'' 1 = ''/srv/.dot''" by code_simp
  show ?thesis
    using h1 h2 h3 gate_at_marker [OF h1 h2, of 0, unfolded c] by (auto simp: CheckPerms_def)
qed

text \<open>
  C5: \<open>CheckPermBits\<close> is claimed to accept a directory only when the chosen class may
  both read and search it. The code tests that the intersection with the mask is
  non-zero, so one of the two bits is enough: a directory with mode 0711 gives "other"
  no read bit (\<open>Perm AND 4 = 0\<close>) and is accepted under threshold 0.
\<close>

theorem search_only_directory_accepted:
  "IsDir (mkdir ''repo'' 457) \<and> Perm (Mode (mkdir ''repo'' 457)) AND 4 = 0
   \<and> CheckPermBits 0 (mkdir ''repo'' 457)"
  by (simp add: mkdir_def IsDir_def Perm_def ModeDir_def ModePerm_def CheckPermBits_def)

text \<open>
  C6: an entry whose name starts with a dot is rejected by \<open>CheckPerms\<close>, whatever its
  mode; and no entry that the listing loop of \<open>MakeDirPage\<close> takes from the directory
  has such a name.
\<close>

theorem hidden_suppression:
  "(HasPrefix (Name info) ''.'' \<longrightarrow> \<not> CheckPerms Perms info)
   \<and> (\<forall>e \<in> set (dirbuf stat Perms url directory dirnames). \<not> HasPrefix (dirList_Name e) ''.'')"
  using CheckPerms_hidden dirbuf_names by blast

theorem hidden_suppression_witness:
  "HasPrefix (Name \<lparr>Name = ''.secret'', Mode = 420\<rparr>) ''.''
   \<and> \<not> CheckPerms 0 \<lparr>Name = ''.secret'', Mode = 420\<rparr>
   \<and> dirbuf listed_dir 0 ''/d/'' ''/srv/d'' [''.secret'', ''pub'']
       = [\<lparr>dirList_URL = ''/d/pub/'', dirList_Name = ''pub'',
            dirList_Link = [], dirList_Query = []\<rparr>]
   \<and> \<not> HasPrefix ''pub'' ''.''"
proof -
  have h: "HasPrefix (Name \<lparr>Name = ''.secret'', Mode = 420\<rparr>) ''.''"
    by (simp add: HasPrefix_def)
  have l: "dirbuf listed_dir 0 ''/d/'' ''/srv/d'' [''.secret'', ''pub'']
       = [\<lparr>dirList_URL = ''/d/pub/'', dirList_Name = ''pub'',
            dirList_Link = [], dirList_Query = []\<rparr>]"
    by code_simp
  show ?thesis
    using h l hidden_suppression [of "\<lparr>Name = ''.secret'', Mode = 420\<rparr>" 0 listed_dir
        "''/d/''" "''/srv/d''" "[''.secret'', ''pub'']"]
    by simp
qed

text \<open>
  C7: with the repository found after \<open>k\<close> upward moves, its \<open>os.Stat\<close> giving \<open>fi\<close>
  and \<open>CheckPerms\<close> accepting \<open>fi\<close>, the accumulated suffix decides: \<open>blob/rest\<close>
  gives a file view of \<open>rest\<close> without trailing slashes; \<open>tree/rest\<close> gives a
  directory view of \<open>rest/\<close>, and the bare \<open>tree\<close>, whose remainder is empty, gives
  \<open>./\<close>; a non-empty suffix that, with the separator appended, starts with neither
  \<open>blob/\<close> nor \<open>tree/\<close> gives 404; the empty suffix gives 200 and no file.
\<close>

theorem suffix_classification:
  assumes "finds_marker stat toplevel p k" and "stat (cursor p k) = Some fi"
    and "CheckPerms Perms fi"
  shows "(\<forall>rest. inner p k = ''blob/'' @ rest \<longrightarrow>
            SplitRepository stat Perms toplevel p
              = Some (Inr (cursor p k, TrimRight_slash rest, True, 200)))
       \<and> (\<forall>rest. inner p k = ''tree/'' @ rest \<longrightarrow>
            SplitRepository stat Perms toplevel p
              = Some (Inr (cursor p k, rest @ ''/'', False, 200)))
       \<and> (inner p k = ''tree'' \<longrightarrow>
            SplitRepository stat Perms toplevel p
              = Some (Inr (cursor p k, ''./'', False, 200)))
       \<and> (inner p k \<noteq> [] \<and> \<not> HasPrefix (inner p k @ ''/'') ''blob/''
            \<and> \<not> HasPrefix (inner p k @ ''/'') ''tree/'' \<longrightarrow>
            SplitRepository stat Perms toplevel p
              = Some (Inr (cursor p k, inner p k @ ''/'', False, 404)))
       \<and> (inner p k = [] \<longrightarrow>
            SplitRepository stat Perms toplevel p
              = Some (Inr (cursor p k, [], False, 200)))"
proof -
  have run: "SplitRepository stat Perms toplevel p = Some (classify (cursor p k) (inner p k))"
    using assms SplitRepository_found [of stat toplevel p k Perms] by (simp add: confirm_def)
  have blob: "classify r (''blob/'' @ rest) = Inr (r, TrimRight_slash rest, True, 200)" for r rest
    using classify_blob [of "''blob/'' @ rest" r]
    by (simp add: HasPrefix_def TrimRight_slash_snoc StatusOK_def)
  have tree: "classify r (''tree/'' @ rest) = Inr (r, rest @ ''/'', False, 200)" for r rest
    using classify_tree [of "''tree/'' @ rest" r]
    by (simp add: HasPrefix_def StatusOK_def)
  have bare: "classify r ''tree'' = Inr (r, ''./'', False, 200)" for r
    using classify_tree [of "''tree''" r]
    by (simp add: HasPrefix_def StatusOK_def)
  have neither: "classify r f = Inr (r, f @ ''/'', False, 404)"
    if "f \<noteq> []" "\<not> HasPrefix (f @ ''/'') ''blob/''" "\<not> HasPrefix (f @ ''/'') ''tree/''" for r f
    using classify_neither [OF that] by (simp add: StatusNotFound_def)
  have empty: "classify r [] = Inr (r, [], False, 200)" for r
    by (simp add: classify_empty StatusOK_def)
  show ?thesis
    unfolding run using blob tree bare neither empty by simp
qed

theorem suffix_classification_witness:
  "finds_marker one_repo ''/srv'' ''/srv/a/blob/README.md'' 2
   \<and> one_repo (cursor ''/srv/a/blob/README.md'' 2) = Some (mkdir ''a'' 493)
   \<and> CheckPerms 0 (mkdir ''a'' 493)
   \<and> inner ''/srv/a/blob/README.md'' 2 = ''blob/'' @ ''README.md''
   \<and> SplitRepository one_repo 0 ''/srv'' ''/srv/a/blob/README.md''
       = Some (Inr (''/srv/a'', ''README.md'', True, 200))"
proof -
  have h1: "finds_marker one_repo ''/srv'' ''/srv/a/blob/README.md'' 2" by code_simp
  have h2: "one_repo (cursor ''/srv/a/blob/README.md'' 2) = Some (mkdir ''a'' 493)"
    by code_simp
  have h3: "CheckPerms 0 (mkdir ''a'' 493)" by code_simp
  have h4: "inner ''/srv/a/blob/README.md'' 2 = ''blob/'' @ ''README.md''" by code_simp
  have c: "cursor ''/srv/a/blob/README.md'' 2 = ''/srv/a''" by code_simp
  have t: "TrimRight_slash ''README.md'' = ''README.md''" by code_simp
  from suffix_classification [OF h1 h2 h3] h4
  have "SplitRepository one_repo 0 ''/srv'' ''/srv/a/blob/README.md''
       = Some (Inr (cursor ''/srv/a/blob/README.md'' 2, TrimRight_slash ''README.md'', True, 200))"
    by blast
  then have "SplitRepository one_repo 0 ''/srv'' ''/srv/a/blob/README.md''
       = Some (Inr (''/srv/a'', ''README.md'', True, 200))"
    unfolding c t .
  with h1 h2 h3 h4 show ?thesis by simp
qed

text \<open>
  C8: when the marker is seen after \<open>k\<close> upward moves and \<open>os.Stat\<close> of that
  directory then fails, the resolver returns status 500.
\<close>

theorem marker_then_stat_failure:
  assumes "finds_marker stat toplevel p k" and "stat (cursor p k) = None"
  shows "SplitRepository stat Perms toplevel p = Some (Inr (cursor p k, inner p k, False, 500))"
  using assms SplitRepository_found [of stat toplevel p k Perms]
  by (simp add: confirm_def StatusInternalServerError_def)

theorem marker_then_stat_failure_witness:
  "finds_marker vanished_repo ''/srv'' ''/srv/a/tree/x'' 2
   \<and> vanished_repo (cursor ''/srv/a/tree/x'' 2) = None
   \<and> SplitRepository vanished_repo 0 ''/srv'' ''/srv/a/tree/x''
       = Some (Inr (''/srv/a'', ''tree/x'', False, 500))"
proof -
  have h1: "finds_marker vanished_repo ''/srv'' ''/srv/a/tree/x'' 2" by code_simp
  have h2: "vanished_repo (cursor ''/srv/a/tree/x'' 2) = None" by code_simp
  have c: "cursor ''/srv/a/tree/x'' 2 = ''/srv/a''" by code_simp
  have i: "inner ''/srv/a/tree/x'' 2 = ''tree/x''" by code_simp
  show ?thesis
    using h1 h2 marker_then_stat_failure [OF h1 h2, of 0, unfolded c i] by simp
qed

text \<open>
  C9: the walk is claimed to end within as many steps as the requested path lies below
  the cleaned serving root, for every serving root. \<open>SplitRepository\<close> compares with
  \<open>toplevel\<close> as passed, so with \<open>/srv/\<close> the cursor passes \<open>/srv\<close>, reaches \<open>/\<close>
  and stays there: the call for \<open>/srv/a\<close> never returns.
\<close>

theorem unclean_toplevel_never_returns:
  "SplitRepository plain_tree Perms ''/srv/'' ''/srv/a'' = None"
proof (cases "SplitRepository plain_tree Perms ''/srv/'' ''/srv/a''")
  case None
  then show ?thesis .
next
  case (Some y)
  then have "SplitRepository_loop plain_tree Perms ''/srv/'' ''/srv/a'' [] 0 = Some y"
    by (simp add: SplitRepository_def)
  from loop_stuck [OF this] show ?thesis by (simp add: stuck_def)
qed


text \<open>
  C10: when the accumulated suffix is exactly \<open>blob\<close> under a found and permitted
  repository, the resolver returns 200 with \<open>isFile\<close> set and an empty file path.
\<close>

theorem bare_blob:
  assumes "finds_marker stat toplevel p k" and "stat (cursor p k) = Some fi"
    and "CheckPerms Perms fi" and "inner p k = ''blob''"
  shows "SplitRepository stat Perms toplevel p = Some (Inr (cursor p k, [], True, 200))"
proof -
  have "classify (cursor p k) ''blob'' = Inr (cursor p k, [], True, 200)"
    by (simp add: classify_def HasPrefix_def index_def SplitAfterN_slash_2_def
        TrimRight_slash_def StatusOK_def)
  with assms show ?thesis
    using SplitRepository_found [of stat toplevel p k Perms] by (simp add: confirm_def)
qed

theorem bare_blob_witness:
  "finds_marker one_repo ''/srv'' ''/srv/a/blob'' 1
   \<and> one_repo (cursor ''/srv/a/blob'' 1) = Some (mkdir ''a'' 493)
   \<and> CheckPerms 0 (mkdir ''a'' 493)
   \<and> inner ''/srv/a/blob'' 1 = ''blob''
   \<and> SplitRepository one_repo 0 ''/srv'' ''/srv/a/blob'' = Some (Inr (''/srv/a'', [], True, 200))"
proof -
  have h1: "finds_marker one_repo ''/srv'' ''/srv/a/blob'' 1" by code_simp
  have h2: "one_repo (cursor ''/srv/a/blob'' 1) = Some (mkdir ''a'' 493)" by code_simp
  have h3: "CheckPerms 0 (mkdir ''a'' 493)" by code_simp
  have h4: "inner ''/srv/a/blob'' 1 = ''blob''" by code_simp
  have c: "cursor ''/srv/a/blob'' 1 = ''/srv/a''" by code_simp
  show ?thesis
    using h1 h2 h3 h4 bare_blob [OF h1 h2 h3 h4, unfolded c] by simp
qed

end
